theory Spec2Isabelle
  imports Main "HOL-Library.Sublist"
begin

section \<open>Text and the pattern matcher\<close>

text \<open>
  A message text is a Python \<open>str\<close>. It is modelled as a \<open>string\<close> whose characters stand
  for the code points below 256; the classes \<open>\d\<close>, \<open>\s\<close>, \<open>\w\<close> and \<open>str.lower\<close> below are
  those of Python 3 on that range.
\<close>

definition code :: "char \<Rightarrow> nat" where
  "code c = of_char c"

definition between :: "nat \<Rightarrow> nat \<Rightarrow> char \<Rightarrow> bool" where
  "between lo hi c = (lo \<le> code c \<and> code c \<le> hi)"

definition is_digit :: "char \<Rightarrow> bool" where
  "is_digit c = between 48 57 c"

definition is_space :: "char \<Rightarrow> bool" where
  "is_space c = (between 9 13 c \<or> between 28 32 c \<or> code c = 133 \<or> code c = 160)"

definition is_word :: "char \<Rightarrow> bool" where
  "is_word c =
     (between 48 57 c \<or> between 65 90 c \<or> code c = 95 \<or> between 97 122 c \<or>
      code c = 170 \<or> between 178 179 c \<or> code c = 181 \<or> between 185 186 c \<or>
      between 188 190 c \<or> between 192 214 c \<or> between 216 246 c \<or> between 248 255 c)"

definition lower_char :: "char \<Rightarrow> char" where
  "lower_char c =
     (if between 65 90 c \<or> between 192 214 c \<or> between 216 222 c
      then char_of (code c + 32) else c)"

definition lower :: "string \<Rightarrow> string" where
  "lower s = map lower_char s"

text \<open>\<open>k in t\<close> on two strings: \<open>k\<close> occurs in \<open>t\<close> as a contiguous substring.\<close>

fun starts_with :: "string \<Rightarrow> string \<Rightarrow> bool" where
  "starts_with [] t = True"
| "starts_with (k # ks) [] = False"
| "starts_with (k # ks) (c # cs) = (k = c \<and> starts_with ks cs)"

fun contains :: "string \<Rightarrow> string \<Rightarrow> bool" where
  "contains k [] = (k = [])"
| "contains k (c # cs) = (starts_with k (c # cs) \<or> contains k cs)"

text \<open>
  The regular expressions of \<open>REGEX_PATTERNS\<close> use literals, bracket classes, concatenation,
  alternation, greedy counted repetition and the word boundary \<open>\b\<close>; none has a capturing
  group, so \<open>re.findall\<close> returns whole matches.
\<close>

datatype citem = CChar char | CRange char char | CDigit | CWord | CSpace

datatype regex =
    Lit char
  | Cls bool "citem list"
  | Seq regex regex
  | Alt regex regex
  | Rep regex nat "nat option"
  | WordB

fun in_item :: "citem \<Rightarrow> char \<Rightarrow> bool" where
  "in_item (CChar a) c = (c = a)"
| "in_item (CRange a b) c = between (code a) (code b) c"
| "in_item CDigit c = is_digit c"
| "in_item CWord c = is_word c"
| "in_item CSpace c = is_space c"

definition in_class :: "bool \<Rightarrow> citem list \<Rightarrow> char \<Rightarrow> bool" where
  "in_class neg items c = (list_ex (\<lambda>i. in_item i c) items \<noteq> neg)"

text \<open>
  A position is the character before it (if any) and the text still to read. \<open>ms r p\<close> lists
  the positions at which a match of \<open>r\<close> starting at \<open>p\<close> can end, in the order in which the
  backtracking matcher of \<open>re\<close> tries them: the left alternative first, more iterations
  first. The match \<open>re\<close> reports is the head of that list.
\<close>

type_synonym pos = "char option \<times> string"

definition at_boundary :: "pos \<Rightarrow> bool" where
  "at_boundary p =
     ((case fst p of None \<Rightarrow> False | Some c \<Rightarrow> is_word c) \<noteq>
      (case snd p of [] \<Rightarrow> False | c # _ \<Rightarrow> is_word c))"

fun rep :: "(pos \<Rightarrow> pos list) \<Rightarrow> nat \<Rightarrow> nat \<Rightarrow> pos \<Rightarrow> pos list" where
  "rep step lo 0 p = (if lo = 0 then [p] else [])"
| "rep step lo (Suc hi) p =
     concat (map (rep step (lo - 1) hi) (step p)) @ (if lo = 0 then [p] else [])"

text \<open>
  An unbounded repetition (\<open>+\<close>, \<open>*\<close>) is run with the number of characters still to read as
  its bound: the repeated expressions of \<open>REGEX_PATTERNS\<close> read one character or more per
  iteration.
\<close>

fun ms :: "regex \<Rightarrow> pos \<Rightarrow> pos list" where
  "ms (Lit a) p = (case snd p of [] \<Rightarrow> [] | c # cs \<Rightarrow> if c = a then [(Some c, cs)] else [])"
| "ms (Cls neg items) p =
     (case snd p of [] \<Rightarrow> [] | c # cs \<Rightarrow> if in_class neg items c then [(Some c, cs)] else [])"
| "ms (Seq a b) p = concat (map (ms b) (ms a p))"
| "ms (Alt a b) p = ms a p @ ms b p"
| "ms (Rep a lo hi) p =
     rep (ms a) lo (case hi of Some n \<Rightarrow> n | None \<Rightarrow> max lo (length (snd p))) p"
| "ms WordB p = (if at_boundary p then [p] else [])"

text \<open>
  A sufficient condition, read off the expression, for every match to read at least one
  character.
\<close>

fun consumes :: "regex \<Rightarrow> bool" where
  "consumes (Lit a) = True"
| "consumes (Cls neg items) = True"
| "consumes (Seq a b) = (consumes a \<or> consumes b)"
| "consumes (Alt a b) = (consumes a \<and> consumes b)"
| "consumes (Rep a lo hi) = (0 < lo \<and> consumes a)"
| "consumes WordB = False"

text \<open>\<open>re.search(r, text)\<close> as a truth value: some position of the text starts a match.\<close>

fun search_from :: "regex \<Rightarrow> char option \<Rightarrow> string \<Rightarrow> bool" where
  "search_from r prev [] = (ms r (prev, []) \<noteq> [])"
| "search_from r prev (c # cs) = (ms r (prev, c # cs) \<noteq> [] \<or> search_from r (Some c) cs)"

definition re_search :: "regex \<Rightarrow> string \<Rightarrow> bool" where
  "re_search r text = search_from r None text"

text \<open>
  \<open>re.findall(r, text)\<close>: the leftmost match, then the leftmost match after its end, and so
  on. A match that reads nothing yields the empty string and the scan moves one character
  on; the four patterns of this program never match the empty string.
\<close>

function findall_from :: "regex \<Rightarrow> char option \<Rightarrow> string \<Rightarrow> string list" where
  "findall_from r prev rest =
     (case ms r (prev, rest) of
        [] \<Rightarrow> (case rest of [] \<Rightarrow> [] | c # cs \<Rightarrow> findall_from r (Some c) cs)
      | q # _ \<Rightarrow>
          if length (snd q) < length rest
          then take (length rest - length (snd q)) rest # findall_from r (fst q) (snd q)
          else [] # (case rest of [] \<Rightarrow> [] | c # cs \<Rightarrow> findall_from r (Some c) cs))"
  by pat_completeness auto
termination
  by (relation "measure (\<lambda>(r, prev, rest). length rest)") auto

definition re_findall :: "regex \<Rightarrow> string \<Rightarrow> string list" where
  "re_findall r text = findall_from r None text"

fun seqs :: "regex \<Rightarrow> regex list \<Rightarrow> regex" where
  "seqs r [] = r"
| "seqs r (x # xs) = Seq r (seqs x xs)"

section \<open>Intelligence extraction\<close>

definition KEYWORDS_SCAM :: "string list" where
  "KEYWORDS_SCAM =
    [''urgent'', ''blocked'', ''verify'', ''kyc'', ''upi'', ''pay'', ''bank'', ''account'',
     ''suspended'', ''expire'', ''refund'', ''prize'', ''lottery'', ''password'', ''otp'',
     ''click'', ''link'', ''credit card'', ''debit card'', ''pin'', ''cvv'', ''police'', ''cbi'',
     ''arrest'', ''customs'', ''fedex'']"

text \<open>\<^verbatim>\<open>[a-zA-Z0-9.\-_]{2,49}@[a-zA-Z._]{2,49}\<close>\<close>

definition upiIds_pattern :: regex where
  "upiIds_pattern =
     seqs (Rep (Cls False [CRange CHR ''a'' CHR ''z'', CRange CHR ''A'' CHR ''Z'',
                           CRange CHR ''0'' CHR ''9'', CChar CHR ''.'', CChar CHR ''-'',
                           CChar CHR ''_'']) 2 (Some 49))
       [Lit CHR ''@'',
        Rep (Cls False [CRange CHR ''a'' CHR ''z'', CRange CHR ''A'' CHR ''Z'',
                        CChar CHR ''.'', CChar CHR ''_'']) 2 (Some 49)]"

text \<open>\<^verbatim>\<open>(?:\+91[\-\s]?)?[6-9]\d{9}\b\<close>\<close>

definition phoneNumbers_pattern :: regex where
  "phoneNumbers_pattern =
     seqs (Rep (seqs (Lit CHR ''+'') [Lit CHR ''9'', Lit CHR ''1'',
                      Rep (Cls False [CChar CHR ''-'', CSpace]) 0 (Some 1)]) 0 (Some 1))
       [Cls False [CRange CHR ''6'' CHR ''9''],
        Rep (Cls False [CDigit]) 9 (Some 9),
        WordB]"

text \<open>\<^verbatim>\<open>\b\d{9,18}\b\<close>\<close>

definition bankAccounts_pattern :: regex where
  "bankAccounts_pattern = seqs WordB [Rep (Cls False [CDigit]) 9 (Some 18), WordB]"

text \<open>\<^verbatim>\<open>https?://(?:[-\w.]|(?:%[\da-fA-F]{2}))+[^\s]*\<close>\<close>

definition phishingLinks_pattern :: regex where
  "phishingLinks_pattern =
     seqs (Lit CHR ''h'')
       [Lit CHR ''t'', Lit CHR ''t'', Lit CHR ''p'', Rep (Lit CHR ''s'') 0 (Some 1),
        Lit CHR '':'', Lit CHR ''/'', Lit CHR ''/'',
        Rep (Alt (Cls False [CChar CHR ''-'', CWord, CChar CHR ''.''])
                 (Seq (Lit CHR ''%'')
                      (Rep (Cls False [CDigit, CRange CHR ''a'' CHR ''f'',
                                       CRange CHR ''A'' CHR ''F'']) 2 (Some 2))))
            1 None,
        Rep (Cls True [CSpace]) 0 None]"


definition detect_scam :: "string \<Rightarrow> bool" where
  "detect_scam text =
     (let text_lower = lower text in
      if list_ex (\<lambda>k. contains k text_lower) KEYWORDS_SCAM then True
      else if re_search phishingLinks_pattern text \<or> re_search upiIds_pattern text then True
      else False)"

text \<open>
  The intelligence dictionary of a session has five fixed keys, each holding a list of
  strings. \<open>REGEX_PATTERNS\<close> is a dictionary literal; its items come in the order written.
\<close>

record intel =
  bankAccounts :: "string list"
  upiIds :: "string list"
  phishingLinks :: "string list"
  phoneNumbers :: "string list"
  suspiciousKeywords :: "string list"

datatype intel_key = K_upiIds | K_phoneNumbers | K_bankAccounts | K_phishingLinks

definition REGEX_PATTERNS :: "(intel_key \<times> regex) list" where
  "REGEX_PATTERNS =
     [(K_upiIds, upiIds_pattern), (K_phoneNumbers, phoneNumbers_pattern),
      (K_bankAccounts, bankAccounts_pattern), (K_phishingLinks, phishingLinks_pattern)]"

fun intel_get :: "intel_key \<Rightarrow> intel \<Rightarrow> string list" where
  "intel_get K_upiIds i = upiIds i"
| "intel_get K_phoneNumbers i = phoneNumbers i"
| "intel_get K_bankAccounts i = bankAccounts i"
| "intel_get K_phishingLinks i = phishingLinks i"

fun intel_set :: "intel_key \<Rightarrow> string list \<Rightarrow> intel \<Rightarrow> intel" where
  "intel_set K_upiIds v i = i\<lparr>upiIds := v\<rparr>"
| "intel_set K_phoneNumbers v i = i\<lparr>phoneNumbers := v\<rparr>"
| "intel_set K_bankAccounts v i = i\<lparr>bankAccounts := v\<rparr>"
| "intel_set K_phishingLinks v i = i\<lparr>phishingLinks := v\<rparr>"

text \<open>The inner loop: append each value that the list does not hold yet.\<close>

fun add_new :: "string list \<Rightarrow> string list \<Rightarrow> string list" where
  "add_new xs [] = xs"
| "add_new xs (m # matches) = add_new (if m \<in> set xs then xs else xs @ [m]) matches"

fun update_patterns :: "(intel_key \<times> regex) list \<Rightarrow> intel \<Rightarrow> string \<Rightarrow> intel" where
  "update_patterns [] i text = i"
| "update_patterns ((key, pattern) # rest) i text =
     update_patterns rest
       (intel_set key (add_new (intel_get key i) (re_findall pattern text)) i) text"

definition extract_and_update_intelligence :: "intel \<Rightarrow> string \<Rightarrow> intel" where
  "extract_and_update_intelligence session_intel text =
     (let i = update_patterns REGEX_PATTERNS session_intel text;
          found_keywords = filter (\<lambda>k. contains k (lower text)) KEYWORDS_SCAM
      in i\<lparr>suspiciousKeywords := add_new (suspiciousKeywords i) found_keywords\<rparr>)"

section \<open>Sessions\<close>

text \<open>
  A \<open>datetime\<close> is its place on the time line, in microseconds, together with the text
  \<open>isoformat()\<close> renders for it. \<open>(a - b).total_seconds() > n\<close> for a whole number \<open>n\<close> of
  seconds holds exactly when the difference exceeds \<open>n\<close> million microseconds.
\<close>

record datetime =
  micros :: int
  isoformat :: string

record turn =
  t_sender :: string
  t_text :: string
  t_timestamp :: string

record session =
  history :: "turn list"
  intelligence :: intel
  last_active :: datetime
  callback_sent :: bool
  scam_detected :: bool

type_synonym session_store = "string \<rightharpoonup> session"

definition CALLBACK_MESSAGE_THRESHOLD :: nat where
  "CALLBACK_MESSAGE_THRESHOLD = 10"

definition SESSION_TIMEOUT_SECONDS :: int where
  "SESSION_TIMEOUT_SECONDS = 1800"

definition timed_out :: "datetime \<Rightarrow> datetime \<Rightarrow> bool" where
  "timed_out t t0 = (micros t - micros t0 > SESSION_TIMEOUT_SECONDS * 1000000)"

text \<open>\<open>init_new_session_state\<close> reads the clock for \<open>last_active\<close>; the reading is its argument.\<close>

definition init_new_session_state :: "datetime \<Rightarrow> session" where
  "init_new_session_state clock =
     \<lparr>history = [],
      intelligence = \<lparr>bankAccounts = [], upiIds = [], phishingLinks = [], phoneNumbers = [],
                      suspiciousKeywords = []\<rparr>,
      last_active = clock,
      callback_sent = False,
      scam_detected = False\<rparr>"

section \<open>The endpoint\<close>

record MessageModel =
  m_sender :: string
  m_text :: string
  m_timestamp :: string

text \<open>\<open>conversationHistory\<close> and \<open>metadata\<close> of the request body are never read.\<close>

record RequestBody =
  sessionId :: string
  message :: MessageModel

record AgentResponse =
  r_status :: string
  r_reply :: string
  r_scam_detected :: bool
  r_intelligence :: intel

text \<open>
  The configuration read from the process environment, and what one call of the endpoint
  receives: the request, the key header, the reading of the clock, and the answer the
  language-model service would give to a completion request: the content of its first
  choice with surrounding blanks stripped, or \<open>None\<close> when the request raises.
\<close>

record config =
  HONEYPOT_API_KEY :: string
  LLM_API_KEY :: "string option"

record call =
  body :: RequestBody
  x_api_key :: string
  now :: datetime
  llm :: "turn list \<Rightarrow> string \<Rightarrow> string option"

definition generate_agent_reply ::
  "config \<Rightarrow> (turn list \<Rightarrow> string \<Rightarrow> string option) \<Rightarrow> turn list \<Rightarrow> string \<Rightarrow> string" where
  "generate_agent_reply cfg service hist current_text =
     (if (case LLM_API_KEY cfg of None \<Rightarrow> True | Some k \<Rightarrow> k = [])
      then ''I am confused, please explain clearly.''
      else (case service hist current_text of
              Some content \<Rightarrow> content
            | None \<Rightarrow> ''Beta, I cannot hear you properly. Please type again?''))"

datatype error = HTTPException nat string

text \<open>
  What a call leaves behind: the response, the session store, whether the reply generator
  ran, and the session identifiers for which \<open>send_final_callback\<close> was added to the
  background tasks. The task itself runs after the response and only posts the report; it
  changes no session.
\<close>

record outcome =
  response :: AgentResponse
  store :: session_store
  agent_invoked :: bool
  callback_tasks :: "string list"

text \<open>
  Step 2 of the handler: the session the rest of the turn works on. A session created here
  gets a second reading of the clock as \<open>last_active\<close>, which the next line overwrites
  with \<open>now\<close>.
\<close>

definition session_management :: "session_store \<Rightarrow> string \<Rightarrow> datetime \<Rightarrow> session" where
  "session_management st sid t =
     (let s = (case st sid of
                 Some old \<Rightarrow> if timed_out t (last_active old) then init_new_session_state t
                             else old
               | None \<Rightarrow> init_new_session_state t)
      in s\<lparr>last_active := t\<rparr>)"

definition new_turns :: "call \<Rightarrow> string \<Rightarrow> turn list" where
  "new_turns c reply_text =
     [\<lparr>t_sender = ''scammer'', t_text = m_text (message (body c)),
       t_timestamp = m_timestamp (message (body c))\<rparr>,
      \<lparr>t_sender = ''agent'', t_text = reply_text,
       t_timestamp = isoformat (now c) @ ''Z''\<rparr>]"

definition chat_handler :: "config \<Rightarrow> session_store \<Rightarrow> call \<Rightarrow> error + outcome" where
  "chat_handler cfg st c =
     (if x_api_key c \<noteq> HONEYPOT_API_KEY cfg
      then Inl (HTTPException 401 ''Invalid or Missing API Key'')
      else
        let sid = sessionId (body c);
            s0 = session_management st sid (now c);
            incoming_text = m_text (message (body c));
            is_scam = detect_scam incoming_text;
            s1 = (if is_scam then s0\<lparr>scam_detected := True\<rparr> else s0);
            s2 = s1\<lparr>intelligence :=
                      extract_and_update_intelligence (intelligence s1) incoming_text\<rparr>;
            should_activate_agent = (scam_detected s2 \<or> length (history s2) > 0)
        in
          if should_activate_agent then
            let reply_text = generate_agent_reply cfg (llm c) (history s2) incoming_text;
                s3 = s2\<lparr>history := history s2 @ new_turns c reply_text\<rparr>;
                trigger = (scam_detected s3 \<and>
                           length (history s3) \<ge> CALLBACK_MESSAGE_THRESHOLD \<and>
                           \<not> callback_sent s3);
                s4 = (if trigger then s3\<lparr>callback_sent := True\<rparr> else s3)
            in Inr \<lparr>response = \<lparr>r_status = ''success'', r_reply = reply_text,
                                  r_scam_detected = scam_detected s4,
                                  r_intelligence = intelligence s4\<rparr>,
                     store = st(sid \<mapsto> s4),
                     agent_invoked = True,
                     callback_tasks = (if trigger then [sid] else [])\<rparr>
          else
            let reply_text = ''Who is this?'';
                s3 = s2\<lparr>history := history s2 @ new_turns c reply_text\<rparr>
            in Inr \<lparr>response = \<lparr>r_status = ''success'', r_reply = reply_text,
                                  r_scam_detected = scam_detected s3,
                                  r_intelligence = intelligence s3\<rparr>,
                     store = st(sid \<mapsto> s3),
                     agent_invoked = False,
                     callback_tasks = []\<rparr>)"

text \<open>
  A sequence of calls, one after the other on the same store. A rejected call leaves the
  store as it is and schedules nothing.
\<close>

definition step_store :: "config \<Rightarrow> session_store \<Rightarrow> call \<Rightarrow> session_store" where
  "step_store cfg st c = (case chat_handler cfg st c of Inl e \<Rightarrow> st | Inr out \<Rightarrow> store out)"

definition fires :: "config \<Rightarrow> session_store \<Rightarrow> call \<Rightarrow> bool" where
  "fires cfg st c =
     (case chat_handler cfg st c of Inl e \<Rightarrow> False | Inr out \<Rightarrow> callback_tasks out \<noteq> [])"

fun run :: "config \<Rightarrow> session_store \<Rightarrow> call list \<Rightarrow> session_store" where
  "run cfg st [] = st"
| "run cfg st (c # cs) = run cfg (step_store cfg st c) cs"

fun triggers :: "config \<Rightarrow> session_store \<Rightarrow> call list \<Rightarrow> bool list" where
  "triggers cfg st [] = []"
| "triggers cfg st (c # cs) = fires cfg st c # triggers cfg (step_store cfg st c) cs"

section \<open>Notions used in the statements\<close>

text \<open>The five category lists of an intelligence dictionary.\<close>

definition categories :: "intel \<Rightarrow> string list list" where
  "categories i = [bankAccounts i, upiIds i, phishingLinks i, phoneNumbers i, suspiciousKeywords i]"

definition empty_intel :: intel where
  "empty_intel = \<lparr>bankAccounts = [], upiIds = [], phishingLinks = [], phoneNumbers = [],
                   suspiciousKeywords = []\<rparr>"

text \<open>What the store holds for a session identifier; an absent session reads as a new one.\<close>

definition report_sent :: "session_store \<Rightarrow> string \<Rightarrow> bool" where
  "report_sent st sid = (case st sid of None \<Rightarrow> False | Some s \<Rightarrow> callback_sent s)"

definition detected :: "session_store \<Rightarrow> string \<Rightarrow> bool" where
  "detected st sid = (case st sid of None \<Rightarrow> False | Some s \<Rightarrow> scam_detected s)"

definition hist :: "session_store \<Rightarrow> string \<Rightarrow> turn list" where
  "hist st sid = (case st sid of None \<Rightarrow> [] | Some s \<Rightarrow> history s)"

definition qualifies :: "session_store \<Rightarrow> string \<Rightarrow> bool" where
  "qualifies st sid = (detected st sid \<and> CALLBACK_MESSAGE_THRESHOLD \<le> length (hist st sid))"

definition accepted :: "config \<Rightarrow> call \<Rightarrow> bool" where
  "accepted cfg c = (x_api_key c = HONEYPOT_API_KEY cfg)"

text \<open>The call finds its session expired and resets it.\<close>

definition resets :: "session_store \<Rightarrow> call \<Rightarrow> bool" where
  "resets st c =
     (case st (sessionId (body c)) of
        None \<Rightarrow> False
      | Some s \<Rightarrow> timed_out (now c) (last_active s))"

text \<open>Every call of the sequence addresses session \<open>sid\<close>, and none of them resets it.\<close>

fun within_session :: "config \<Rightarrow> string \<Rightarrow> session_store \<Rightarrow> call list \<Rightarrow> bool" where
  "within_session cfg sid st [] = True"
| "within_session cfg sid st (c # cs) =
     (sessionId (body c) = sid \<and> \<not> resets st c \<and>
      within_session cfg sid (step_store cfg st c) cs)"

text \<open>The session a call works on, once step 2 of the handler has resolved it.\<close>

definition resolved :: "session_store \<Rightarrow> call \<Rightarrow> session" where
  "resolved st c = session_management st (sessionId (body c)) (now c)"

text \<open>An accepted call whose text the classifier flags.\<close>

definition flagged :: "config \<Rightarrow> call \<Rightarrow> bool" where
  "flagged cfg c = (accepted cfg c \<and> detect_scam (m_text (message (body c))))"

section \<open>Example inputs\<close>

definition example_cfg :: config where
  "example_cfg = \<lparr>HONEYPOT_API_KEY = ''secret'', LLM_API_KEY = None\<rparr>"

text \<open>A call to session \<open>s1\<close> with the right key, carrying a text at a clock reading.\<close>

definition example_call :: "string \<Rightarrow> int \<Rightarrow> call" where
  "example_call txt t =
     \<lparr>body = \<lparr>sessionId = ''s1'',
               message = \<lparr>m_sender = ''scammer'', m_text = txt, m_timestamp = ''ts''\<rparr>\<rparr>,
      x_api_key = ''secret'',
      now = \<lparr>micros = t, isoformat = ''iso''\<rparr>,
      llm = (\<lambda>h x. None)\<rparr>"

text \<open>Six scam-flagged calls to the same session, a microsecond apart.\<close>

definition example_calls :: "call list" where
  "example_calls =
     [example_call ''pay'' 0, example_call ''pay'' 1, example_call ''pay'' 2,
      example_call ''pay'' 3, example_call ''pay'' 4, example_call ''pay'' 5]"

text \<open>A store holding one session, last active at clock reading 0.\<close>

definition example_session :: session where
  "example_session =
     \<lparr>history = new_turns (example_call ''pay'' 0) ''I am confused, please explain clearly.'',
      intelligence = empty_intel\<lparr>suspiciousKeywords := [''pay'']\<rparr>,
      last_active = \<lparr>micros = 0, isoformat = ''iso''\<rparr>,
      callback_sent = False,
      scam_detected = True\<rparr>"

definition example_store :: session_store where
  "example_store = [''s1'' \<mapsto> example_session]"

section \<open>The pattern matcher: auxiliary facts\<close>

text \<open>
  A match never ends before it starts, and a match of an expression that \<open>consumes\<close> reads
  at least one character. All four patterns consume, so \<open>findall_from\<close> never meets an
  empty match; and for a repeated expression that consumes, any bound from the number of
  characters left upwards gives the same matches.
\<close>

lemma rep_le:
  assumes "\<And>p q. q \<in> set (step p) \<Longrightarrow> length (snd q) \<le> length (snd p)"
  shows "q \<in> set (rep step lo hi p) \<Longrightarrow> length (snd q) \<le> length (snd p)"
proof (induction hi arbitrary: lo p)
  case 0
  then show ?case by (auto split: if_splits)
next
  case (Suc hi)
  from Suc.prems consider "q = p"
    | q' where "q' \<in> set (step p)" "q \<in> set (rep step (lo - 1) hi q')"
    by (auto split: if_splits)
  then show ?case
  proof cases
    case 1
    then show ?thesis by simp
  next
    case 2
    from Suc.IH [OF 2(2)] assms [OF 2(1)] show ?thesis by simp
  qed
qed

lemma rep_lt:
  assumes "\<And>p q. q \<in> set (step p) \<Longrightarrow> length (snd q) < length (snd p)"
    and "0 < lo" and "q \<in> set (rep step lo hi p)"
  shows "length (snd q) < length (snd p)"
proof (cases hi)
  case 0
  with assms(2,3) show ?thesis by simp
next
  case (Suc n)
  with assms(2,3) obtain q' where q': "q' \<in> set (step p)" "q \<in> set (rep step (lo - 1) n q')"
    by auto
  have "length (snd q) \<le> length (snd q')"
    using rep_le [of step q "lo - 1" n q'] assms(1) q'(2) by (simp add: less_imp_le)
  with assms(1) [OF q'(1)] show ?thesis by simp
qed

lemma ms_le: "q \<in> set (ms r p) \<Longrightarrow> length (snd q) \<le> length (snd p)"
proof (induction r arbitrary: p q)
  case (Rep r lo hi)
  show ?case
    using Rep.prems rep_le [of "ms r" q lo _ p] Rep.IH by auto
qed (fastforce split: list.splits if_splits)+

lemma ms_lt: "consumes r \<Longrightarrow> q \<in> set (ms r p) \<Longrightarrow> length (snd q) < length (snd p)"
proof (induction r arbitrary: p q)
  case (Seq a b)
  from Seq.prems(2) obtain q' where q': "q' \<in> set (ms a p)" "q \<in> set (ms b q')" by auto
  from Seq.prems(1) have "consumes a \<or> consumes b" by simp
  then show ?case
  proof
    assume "consumes a"
    from Seq.IH(1) [OF this q'(1)] ms_le [OF q'(2)] show ?thesis by simp
  next
    assume "consumes b"
    from Seq.IH(2) [OF this q'(2)] ms_le [OF q'(1)] show ?thesis by simp
  qed
next
  case (Rep r lo hi)
  then show ?case using rep_lt [of "ms r" lo q _ p] by auto
qed (auto split: list.splits if_splits)

lemma patterns_consume:
  "list_all (\<lambda>(key, pattern). consumes pattern) REGEX_PATTERNS"
  by (simp add: REGEX_PATTERNS_def upiIds_pattern_def phoneNumbers_pattern_def
      bankAccounts_pattern_def phishingLinks_pattern_def)

lemma rep_bound:
  assumes "\<And>p q. q \<in> set (step p) \<Longrightarrow> length (snd q) < length (snd p)"
  shows "length (snd p) \<le> n \<Longrightarrow> length (snd p) \<le> m \<Longrightarrow> rep step lo n p = rep step lo m p"
proof (induction n arbitrary: p lo m)
  case 0
  then have "step p = []" using assms [of _ p] by (cases "step p") auto
  then show ?case by (cases m) auto
next
  case (Suc n)
  show ?case
  proof (cases m)
    case 0
    with Suc.prems have "step p = []" using assms [of _ p] by (cases "step p") auto
    with 0 show ?thesis by simp
  next
    case (Suc m')
    have same: "rep step (lo - 1) n q = rep step (lo - 1) m' q" if "q \<in> set (step p)" for q
      using assms [OF that] Suc.prems \<open>m = Suc m'\<close> by (intro Suc.IH) auto
    have "map (rep step (lo - 1) n) (step p) = map (rep step (lo - 1) m') (step p)"
      by (rule map_cong [OF refl]) (rule same)
    then show ?thesis unfolding \<open>m = Suc m'\<close> by (simp only: rep.simps)
  qed
qed

lemma unbounded_repetition:
  assumes "consumes r" "length (snd p) \<le> n"
  shows "ms (Rep r lo None) p = rep (ms r) lo n p"
proof -
  have "rep (ms r) lo (max lo (length (snd p))) p = rep (ms r) lo n p"
    using ms_lt [OF assms(1)] assms(2) by (intro rep_bound) auto
  then show ?thesis by simp
qed

section \<open>Extraction: auxiliary facts\<close>

lemma add_new_set: "set (add_new xs ys) = set xs \<union> set ys"
  by (induction ys arbitrary: xs) auto

lemma add_new_distinct: "distinct xs \<Longrightarrow> distinct (add_new xs ys)"
  by (induction ys arbitrary: xs) auto

lemma add_new_prefix: "prefix xs (add_new xs ys)"
proof (induction ys arbitrary: xs)
  case Nil
  show ?case by simp
next
  case (Cons y ys)
  have "prefix xs (if y \<in> set xs then xs else xs @ [y])" by simp
  also have "prefix \<dots> (add_new (if y \<in> set xs then xs else xs @ [y]) ys)"
    by (rule Cons.IH)
  finally show ?case by simp
qed

lemma add_new_known: "set ys \<subseteq> set xs \<Longrightarrow> add_new xs ys = xs"
  by (induction ys arbitrary: xs) auto

lemma add_new_twice: "add_new (add_new xs ys) ys = add_new xs ys"
  by (rule add_new_known) (simp add: add_new_set)

lemma extract_fields:
  "extract_and_update_intelligence i t =
     \<lparr>bankAccounts = add_new (bankAccounts i) (re_findall bankAccounts_pattern t),
      upiIds = add_new (upiIds i) (re_findall upiIds_pattern t),
      phishingLinks = add_new (phishingLinks i) (re_findall phishingLinks_pattern t),
      phoneNumbers = add_new (phoneNumbers i) (re_findall phoneNumbers_pattern t),
      suspiciousKeywords =
        add_new (suspiciousKeywords i) (filter (\<lambda>k. contains k (lower t)) KEYWORDS_SCAM)\<rparr>"
  by (simp add: extract_and_update_intelligence_def REGEX_PATTERNS_def Let_def)

lemma extract_twice:
  "extract_and_update_intelligence (extract_and_update_intelligence i t) t =
   extract_and_update_intelligence i t"
  by (simp add: extract_fields add_new_twice)

lemma extract_distinct:
  "list_all distinct (categories i) \<Longrightarrow>
   list_all distinct (categories (extract_and_update_intelligence i t))"
  by (simp add: extract_fields categories_def add_new_distinct)

lemma extract_prefix:
  "list_all2 prefix (categories i) (categories (extract_and_update_intelligence i t))"
  by (simp add: extract_fields categories_def add_new_prefix)

section \<open>One call of the endpoint: auxiliary facts\<close>

lemma chat_handler_rejected:
  "x_api_key c \<noteq> HONEYPOT_API_KEY cfg \<Longrightarrow>
   chat_handler cfg st c = Inl (HTTPException 401 ''Invalid or Missing API Key'')"
  by (simp add: chat_handler_def)

lemma chat_handler_Inr_key:
  "chat_handler cfg st c = Inr out \<Longrightarrow> x_api_key c = HONEYPOT_API_KEY cfg"
  by (auto simp: chat_handler_def split: if_splits)

lemma length_new_turns [simp]: "length (new_turns c r) = 2"
  by (simp add: new_turns_def)

lemma chat_handler_accepted:
  fixes cfg st c
  defines "sid \<equiv> sessionId (body c)"
  defines "s0 \<equiv> session_management st sid (now c)"
  defines "txt \<equiv> m_text (message (body c))"
  assumes key: "x_api_key c = HONEYPOT_API_KEY cfg"
  shows "\<exists>out s'. chat_handler cfg st c = Inr out \<and>
     store out = st(sid \<mapsto> s') \<and>
     history s' = history s0 @ new_turns c (r_reply (response out)) \<and>
     scam_detected s' = (scam_detected s0 \<or> detect_scam txt) \<and>
     intelligence s' = extract_and_update_intelligence (intelligence s0) txt \<and>
     last_active s' = last_active s0 \<and>
     callback_sent s' = (callback_sent s0 \<or> callback_tasks out \<noteq> []) \<and>
     callback_tasks out =
       (if scam_detected s' \<and> CALLBACK_MESSAGE_THRESHOLD \<le> length (history s') \<and>
           \<not> callback_sent s0
        then [sid] else []) \<and>
     agent_invoked out = (scam_detected s' \<or> history s0 \<noteq> []) \<and>
     r_reply (response out) =
       (if agent_invoked out then generate_agent_reply cfg (llm c) (history s0) txt
        else ''Who is this?'') \<and>
     r_status (response out) = ''success'' \<and>
     r_scam_detected (response out) = scam_detected s' \<and>
     r_intelligence (response out) = intelligence s'"
proof -
  have "\<exists>out. chat_handler cfg st c = Inr out"
    using key by (simp add: chat_handler_def Let_def)
  then obtain out where out: "chat_handler cfg st c = Inr out" ..
  define s' where "s' = the (store out sid)"
  have "store out = st(sid \<mapsto> s')"
    using out key unfolding s'_def sid_def
    by (auto simp: chat_handler_def Let_def split: if_splits)
  moreover have "history s' = history s0 @ new_turns c (r_reply (response out))"
    using out key unfolding s'_def sid_def s0_def
    by (auto simp: chat_handler_def Let_def split: if_splits)
  moreover have "scam_detected s' = (scam_detected s0 \<or> detect_scam txt)"
    using out key unfolding s'_def sid_def s0_def txt_def
    by (auto simp: chat_handler_def Let_def split: if_splits)
  moreover have "intelligence s' = extract_and_update_intelligence (intelligence s0) txt"
    using out key unfolding s'_def sid_def s0_def txt_def
    by (auto simp: chat_handler_def Let_def split: if_splits)
  moreover have "last_active s' = last_active s0"
    using out key unfolding s'_def sid_def s0_def
    by (auto simp: chat_handler_def Let_def split: if_splits)
  moreover have "callback_sent s' = (callback_sent s0 \<or> callback_tasks out \<noteq> [])"
    using out key unfolding s'_def sid_def s0_def
    by (auto simp: chat_handler_def Let_def split: if_splits)
  moreover have "callback_tasks out =
       (if scam_detected s' \<and> CALLBACK_MESSAGE_THRESHOLD \<le> length (history s') \<and>
           \<not> callback_sent s0
        then [sid] else [])"
    using out key unfolding s'_def sid_def s0_def
    by (auto simp: chat_handler_def Let_def CALLBACK_MESSAGE_THRESHOLD_def split: if_splits)
  moreover have "agent_invoked out = (scam_detected s' \<or> history s0 \<noteq> [])"
    using out key unfolding s'_def sid_def s0_def
    by (auto simp: chat_handler_def Let_def split: if_splits)
  moreover have "r_reply (response out) =
       (if agent_invoked out then generate_agent_reply cfg (llm c) (history s0) txt
        else ''Who is this?'')"
    using out key unfolding s'_def sid_def s0_def txt_def
    by (auto simp: chat_handler_def Let_def split: if_splits)
  moreover have "r_status (response out) = ''success''"
    using out key by (auto simp: chat_handler_def Let_def split: if_splits)
  moreover have "r_scam_detected (response out) = scam_detected s'"
    using out key unfolding s'_def sid_def
    by (auto simp: chat_handler_def Let_def split: if_splits)
  moreover have "r_intelligence (response out) = intelligence s'"
    using out key unfolding s'_def sid_def
    by (auto simp: chat_handler_def Let_def split: if_splits)
  ultimately show ?thesis using out by blast
qed


lemma session_management_absent:
  "st sid = None \<Longrightarrow> session_management st sid t = init_new_session_state t"
  by (simp add: session_management_def init_new_session_state_def)

lemma session_management_expired:
  "st sid = Some old \<Longrightarrow> timed_out t (last_active old) \<Longrightarrow>
   session_management st sid t = init_new_session_state t"
  by (simp add: session_management_def init_new_session_state_def)

lemma session_management_live:
  "st sid = Some old \<Longrightarrow> \<not> timed_out t (last_active old) \<Longrightarrow>
   session_management st sid t = old\<lparr>last_active := t\<rparr>"
  by (simp add: session_management_def)

lemma step_store_rejected: "\<not> accepted cfg c \<Longrightarrow> step_store cfg st c = st"
  by (simp add: step_store_def accepted_def chat_handler_rejected)

lemma fires_rejected: "\<not> accepted cfg c \<Longrightarrow> \<not> fires cfg st c"
  by (simp add: fires_def accepted_def chat_handler_rejected)

lemma live_flags:
  assumes "\<not> resets st c"
  shows "callback_sent (session_management st (sessionId (body c)) (now c))
           = report_sent st (sessionId (body c))"
    and "scam_detected (session_management st (sessionId (body c)) (now c))
           = detected st (sessionId (body c))"
    and "history (session_management st (sessionId (body c)) (now c))
           = hist st (sessionId (body c))"
  using assms
  by (auto simp: resets_def session_management_def report_sent_def detected_def hist_def
        init_new_session_state_def split: option.splits)

lemma step_live:
  assumes acc: "accepted cfg c" and live: "\<not> resets st c"
  defines "sid \<equiv> sessionId (body c)"
  defines "st' \<equiv> step_store cfg st c"
  shows "\<exists>r. hist st' sid = hist st sid @ new_turns c r"
    and "detected st' sid = (detected st sid \<or> detect_scam (m_text (message (body c))))"
    and "fires cfg st c = (qualifies st' sid \<and> \<not> report_sent st sid)"
    and "report_sent st' sid = (report_sent st sid \<or> fires cfg st c)"
proof -
  from chat_handler_accepted [of c cfg st] acc
  obtain out s' where out: "chat_handler cfg st c = Inr out"
    and st: "store out = st(sid \<mapsto> s')"
    and h: "history s' = hist st sid @ new_turns c (r_reply (response out))"
    and d: "scam_detected s' = (detected st sid \<or> detect_scam (m_text (message (body c))))"
    and s: "callback_sent s' = (report_sent st sid \<or> callback_tasks out \<noteq> [])"
    and t: "callback_tasks out =
       (if scam_detected s' \<and> CALLBACK_MESSAGE_THRESHOLD \<le> length (history s') \<and>
           \<not> report_sent st sid then [sid] else [])"
    unfolding accepted_def sid_def live_flags [OF live] by blast
  have st': "st' = st(sid \<mapsto> s')"
    by (simp add: st'_def step_store_def out st)
  show "\<exists>r. hist st' sid = hist st sid @ new_turns c r"
    using h by (auto simp: st' hist_def)
  show "detected st' sid = (detected st sid \<or> detect_scam (m_text (message (body c))))"
    using d by (simp add: st' detected_def)
  show f: "fires cfg st c = (qualifies st' sid \<and> \<not> report_sent st sid)"
    using t by (simp add: fires_def out st' qualifies_def detected_def hist_def)
  show "report_sent st' sid = (report_sent st sid \<or> fires cfg st c)"
    using s by (simp add: st' report_sent_def fires_def out)
qed

lemma step_other:
  "sessionId (body c) \<noteq> sid \<Longrightarrow> step_store cfg st c sid = st sid"
  by (cases "accepted cfg c")
     (use chat_handler_accepted [of c cfg st] in
       \<open>auto simp: step_store_def accepted_def chat_handler_rejected\<close>)

section \<open>Sequences of calls: auxiliary facts\<close>

lemma step_in_session:
  assumes "sessionId (body c) = sid" and "\<not> resets st c"
  shows "fires cfg st c = (accepted cfg c \<and> qualifies (step_store cfg st c) sid \<and> \<not> report_sent st sid)"
    and "report_sent (step_store cfg st c) sid = (report_sent st sid \<or> fires cfg st c)"
    and "detected st sid \<Longrightarrow> detected (step_store cfg st c) sid"
    and "length (hist st sid) \<le> length (hist (step_store cfg st c) sid)"
proof -
  show "fires cfg st c = (accepted cfg c \<and> qualifies (step_store cfg st c) sid \<and> \<not> report_sent st sid)"
    using assms step_live(3) [of cfg c st] fires_rejected [of cfg c st]
    by (cases "accepted cfg c") auto
  show "report_sent (step_store cfg st c) sid = (report_sent st sid \<or> fires cfg st c)"
    using assms step_live(4) [of cfg c st] fires_rejected [of cfg c st] step_store_rejected [of cfg c st]
    by (cases "accepted cfg c") auto
  show "detected st sid \<Longrightarrow> detected (step_store cfg st c) sid"
    using assms step_live(2) [of cfg c st] step_store_rejected [of cfg c st]
    by (cases "accepted cfg c") auto
  show "length (hist st sid) \<le> length (hist (step_store cfg st c) sid)"
    using assms step_live(1) [of cfg c st] step_store_rejected [of cfg c st]
    by (cases "accepted cfg c") auto
qed

lemma run_append: "run cfg st (xs @ ys) = run cfg (run cfg st xs) ys"
  by (induction xs arbitrary: st) auto

lemma triggers_append:
  "triggers cfg st (xs @ ys) = triggers cfg st xs @ triggers cfg (run cfg st xs) ys"
  by (induction xs arbitrary: st) auto

lemma within_session_append:
  "within_session cfg sid st (xs @ ys) =
     (within_session cfg sid st xs \<and> within_session cfg sid (run cfg st xs) ys)"
  by (induction xs arbitrary: st) auto

lemma sent_blocks:
  "within_session cfg sid st cs \<Longrightarrow> report_sent st sid \<Longrightarrow>
   report_sent (run cfg st cs) sid \<and> True \<notin> set (triggers cfg st cs)"
proof (induction cs arbitrary: st)
  case Nil
  then show ?case by simp
next
  case (Cons c cs)
  from Cons.prems have c: "sessionId (body c) = sid" "\<not> resets st c"
    and rest: "within_session cfg sid (step_store cfg st c) cs" by auto
  have "\<not> fires cfg st c" "report_sent (step_store cfg st c) sid"
    using step_in_session(1,2) [OF c, of cfg] Cons.prems(2) by auto
  with Cons.IH [OF rest] show ?case by simp
qed

lemma sent_counts:
  "within_session cfg sid st cs \<Longrightarrow> \<not> report_sent st sid \<Longrightarrow>
   count_list (triggers cfg st cs) True = (if report_sent (run cfg st cs) sid then 1 else 0)"
proof (induction cs arbitrary: st)
  case Nil
  then show ?case by simp
next
  case (Cons c cs)
  from Cons.prems have c: "sessionId (body c) = sid" "\<not> resets st c"
    and rest: "within_session cfg sid (step_store cfg st c) cs" by auto
  show ?case
  proof (cases "fires cfg st c")
    case True
    then have "report_sent (step_store cfg st c) sid"
      using step_in_session(2) [OF c, of cfg] by simp
    from sent_blocks [OF rest this] True show ?thesis
      by (simp add: count_list_0_iff)
  next
    case False
    then have "\<not> report_sent (step_store cfg st c) sid"
      using step_in_session(2) [OF c, of cfg] Cons.prems(2) by simp
    from Cons.IH [OF rest this] False show ?thesis by simp
  qed
qed

lemma qualified_is_sent:
  "within_session cfg sid st cs \<Longrightarrow> (qualifies st sid \<longrightarrow> report_sent st sid) \<Longrightarrow>
   (qualifies (run cfg st cs) sid \<longrightarrow> report_sent (run cfg st cs) sid)"
proof (induction cs arbitrary: st)
  case Nil
  then show ?case by simp
next
  case (Cons c cs)
  from Cons.prems have c: "sessionId (body c) = sid" "\<not> resets st c"
    and rest: "within_session cfg sid (step_store cfg st c) cs" by auto
  have "qualifies (step_store cfg st c) sid \<longrightarrow> report_sent (step_store cfg st c) sid"
  proof (cases "accepted cfg c")
    case True
    then show ?thesis using step_in_session(1,2) [OF c, of cfg] by auto
  next
    case False
    then show ?thesis using Cons.prems(2) by (simp add: step_store_rejected)
  qed
  from Cons.IH [OF rest this] show ?case by simp
qed

section \<open>Reachable stores: auxiliary facts\<close>

lemma step_store_shape:
  "step_store cfg st c = st \<or>
   (\<exists>s' r. step_store cfg st c = st(sessionId (body c) \<mapsto> s') \<and>
      history s' = history (session_management st (sessionId (body c)) (now c)) @ new_turns c r \<and>
      intelligence s' =
        extract_and_update_intelligence
          (intelligence (session_management st (sessionId (body c)) (now c)))
          (m_text (message (body c))))"
proof (cases "accepted cfg c")
  case True
  from chat_handler_accepted [of c cfg st] True
  obtain out s' where "chat_handler cfg st c = Inr out"
    "store out = st(sessionId (body c) \<mapsto> s')"
    "history s' = history (session_management st (sessionId (body c)) (now c))
                    @ new_turns c (r_reply (response out))"
    "intelligence s' =
        extract_and_update_intelligence
          (intelligence (session_management st (sessionId (body c)) (now c)))
          (m_text (message (body c)))"
    unfolding accepted_def by blast
  then show ?thesis by (auto simp: step_store_def)
next
  case False
  then show ?thesis by (simp add: step_store_rejected)
qed

lemma session_management_cases:
  "session_management st sid t = init_new_session_state t \<or>
   (\<exists>old. st sid = Some old \<and> session_management st sid t = old\<lparr>last_active := t\<rparr>)"
  by (auto simp: session_management_def init_new_session_state_def split: option.splits)

lemma step_even:
  assumes inv: "\<And>sid s. st sid = Some s \<Longrightarrow> even (length (history s))"
    and s: "step_store cfg st c sid = Some s"
  shows "even (length (history s))"
proof -
  have e0: "even (length (history (session_management st k t)))" for k t
    using session_management_cases [of st k t] inv
    by (auto simp: init_new_session_state_def)
  from step_store_shape [of cfg st c] show ?thesis
  proof
    assume "step_store cfg st c = st"
    with s inv show ?thesis by simp
  next
    assume "\<exists>s' r. step_store cfg st c = st(sessionId (body c) \<mapsto> s') \<and>
      history s' = history (session_management st (sessionId (body c)) (now c)) @ new_turns c r \<and>
      intelligence s' =
        extract_and_update_intelligence
          (intelligence (session_management st (sessionId (body c)) (now c)))
          (m_text (message (body c)))"
    then obtain s' r where st': "step_store cfg st c = st(sessionId (body c) \<mapsto> s')"
      and h: "history s' = history (session_management st (sessionId (body c)) (now c)) @ new_turns c r"
      by blast
    show ?thesis
    proof (cases "sid = sessionId (body c)")
      case True
      with s st' have "s = s'" by simp
      with h e0 show ?thesis by simp
    next
      case False
      with s st' inv show ?thesis by simp
    qed
  qed
qed

lemma run_even:
  "(\<And>sid s. st sid = Some s \<Longrightarrow> even (length (history s))) \<Longrightarrow>
   run cfg st cs sid = Some s \<Longrightarrow> even (length (history s))"
proof (induction cs arbitrary: st)
  case Nil
  then show ?case by simp
next
  case (Cons c cs)
  show ?case
  proof (rule Cons.IH)
    show "run cfg (step_store cfg st c) cs sid = Some s" using Cons.prems(2) by simp
  next
    fix k s' assume "step_store cfg st c k = Some s'"
    then show "even (length (history s'))" using step_even [of st cfg c k s'] Cons.prems(1) by blast
  qed
qed

lemma step_distinct:
  assumes inv: "\<And>sid s. st sid = Some s \<Longrightarrow> list_all distinct (categories (intelligence s))"
    and s: "step_store cfg st c sid = Some s"
  shows "list_all distinct (categories (intelligence s))"
proof -
  have e0: "list_all distinct (categories (intelligence (session_management st k t)))" for k t
    using session_management_cases [of st k t] inv
    by (auto simp: init_new_session_state_def categories_def)
  from step_store_shape [of cfg st c] show ?thesis
  proof
    assume "step_store cfg st c = st"
    with s inv show ?thesis by simp
  next
    assume "\<exists>s' r. step_store cfg st c = st(sessionId (body c) \<mapsto> s') \<and>
      history s' = history (session_management st (sessionId (body c)) (now c)) @ new_turns c r \<and>
      intelligence s' =
        extract_and_update_intelligence
          (intelligence (session_management st (sessionId (body c)) (now c)))
          (m_text (message (body c)))"
    then obtain s' where st': "step_store cfg st c = st(sessionId (body c) \<mapsto> s')"
      and h: "intelligence s' =
        extract_and_update_intelligence
          (intelligence (session_management st (sessionId (body c)) (now c)))
          (m_text (message (body c)))"
      by blast
    show ?thesis
    proof (cases "sid = sessionId (body c)")
      case True
      with s st' have "s = s'" by simp
      with h extract_distinct [OF e0] show ?thesis by simp
    next
      case False
      with s st' inv show ?thesis by simp
    qed
  qed
qed

lemma run_distinct:
  "(\<And>sid s. st sid = Some s \<Longrightarrow> list_all distinct (categories (intelligence s))) \<Longrightarrow>
   run cfg st cs sid = Some s \<Longrightarrow> list_all distinct (categories (intelligence s))"
proof (induction cs arbitrary: st)
  case Nil
  then show ?case by simp
next
  case (Cons c cs)
  show ?case
  proof (rule Cons.IH)
    show "run cfg (step_store cfg st c) cs sid = Some s" using Cons.prems(2) by simp
  next
    fix k s' assume "step_store cfg st c k = Some s'"
    then show "list_all distinct (categories (intelligence s'))"
      using step_distinct [of st cfg c k s'] Cons.prems(1) by blast
  qed
qed

lemma flagged_run:
  "within_session cfg sid st cs \<Longrightarrow> list_all (flagged cfg) cs \<Longrightarrow>
   length (hist st sid) = 2 * k \<Longrightarrow> report_sent st sid = (5 \<le> k) \<Longrightarrow>
   triggers cfg st cs = map (\<lambda>j. j + k = 4) [0 ..< length cs]"
proof (induction cs arbitrary: st k)
  case Nil
  then show ?case by simp
next
  case (Cons c cs)
  from Cons.prems have c: "sessionId (body c) = sid" "\<not> resets st c"
    and rest: "within_session cfg sid (step_store cfg st c) cs"
    and fc: "flagged cfg c" and fl: "list_all (flagged cfg) cs"
    by auto
  from fc have acc: "accepted cfg c" and scam: "detect_scam (m_text (message (body c)))"
    by (auto simp: flagged_def)
  have len: "length (hist (step_store cfg st c) sid) = 2 * Suc k"
    using step_live(1) [OF acc c(2)] Cons.prems(3) c(1) by auto
  have det: "detected (step_store cfg st c) sid"
    using step_live(2) [OF acc c(2)] scam c(1) by simp
  have f: "fires cfg st c = (k = 4)"
    using step_live(3) [OF acc c(2)] c(1) len det Cons.prems(4)
    by (auto simp: qualifies_def CALLBACK_MESSAGE_THRESHOLD_def)
  have sent: "report_sent (step_store cfg st c) sid = (5 \<le> Suc k)"
    using step_live(4) [OF acc c(2)] c(1) f Cons.prems(4) by auto
  have "triggers cfg (step_store cfg st c) cs = map (\<lambda>j. j + Suc k = 4) [0 ..< length cs]"
    by (rule Cons.IH [OF rest fl len sent])
  moreover have "[0 ..< length (c # cs)] = 0 # map Suc [0 ..< length cs]"
    by (simp add: upt_conv_Cons map_Suc_upt del: upt_Suc)
  ultimately show ?case using f by (simp add: comp_def del: upt_Suc)
qed

lemma five_flagged:
  assumes "st sid = None" "length cs = 5" "within_session cfg sid st cs"
    "list_all (flagged cfg) cs"
  shows "triggers cfg st cs = [False, False, False, False, True]"
proof -
  have "triggers cfg st cs = map (\<lambda>j. j + 0 = 4) [0 ..< length cs]"
    using assms by (intro flagged_run) (auto simp: hist_def report_sent_def)
  also have "\<dots> = [False, False, False, False, True]"
    unfolding assms(2) by (simp add: upt_rec)
  finally show ?thesis .
qed

lemma accepted_call:
  assumes "accepted cfg c"
  shows "\<exists>out s'. chat_handler cfg st c = Inr out \<and>
     store out = st(sessionId (body c) \<mapsto> s') \<and>
     history s' = history (resolved st c) @ new_turns c (r_reply (response out)) \<and>
     scam_detected s' = (scam_detected (resolved st c) \<or> detect_scam (m_text (message (body c)))) \<and>
     intelligence s' = extract_and_update_intelligence (intelligence (resolved st c))
                         (m_text (message (body c))) \<and>
     last_active s' = last_active (resolved st c) \<and>
     callback_sent s' = (callback_sent (resolved st c) \<or> callback_tasks out \<noteq> []) \<and>
     callback_tasks out =
       (if scam_detected s' \<and> CALLBACK_MESSAGE_THRESHOLD \<le> length (history s') \<and>
           \<not> callback_sent (resolved st c)
        then [sessionId (body c)] else []) \<and>
     agent_invoked out = (scam_detected s' \<or> history (resolved st c) \<noteq> []) \<and>
     r_reply (response out) =
       (if agent_invoked out
        then generate_agent_reply cfg (llm c) (history (resolved st c)) (m_text (message (body c)))
        else ''Who is this?'') \<and>
     r_status (response out) = ''success'' \<and>
     r_scam_detected (response out) = scam_detected s' \<and>
     r_intelligence (response out) = intelligence s'"
  using chat_handler_accepted [of c cfg st] assms
  unfolding accepted_def resolved_def .

lemma resolved_live:
  "\<not> resets st c \<Longrightarrow> history (resolved st c) = hist st (sessionId (body c))"
  "\<not> resets st c \<Longrightarrow> scam_detected (resolved st c) = detected st (sessionId (body c))"
  "\<not> resets st c \<Longrightarrow> callback_sent (resolved st c) = report_sent st (sessionId (body c))"
  unfolding resolved_def by (simp_all add: live_flags)

lemma detected_run:
  "within_session cfg sid st cs \<Longrightarrow> detected st sid \<Longrightarrow> detected (run cfg st cs) sid"
proof (induction cs arbitrary: st)
  case Nil
  then show ?case by simp
next
  case (Cons c cs)
  from Cons.prems have c: "sessionId (body c) = sid" "\<not> resets st c"
    and rest: "within_session cfg sid (step_store cfg st c) cs" by auto
  have "detected (step_store cfg st c) sid"
    by (rule step_in_session(3) [OF c Cons.prems(2)])
  from Cons.IH [OF rest this] show ?case by simp
qed

lemma detected_lost:
  assumes "detected st sid" "\<not> detected (step_store cfg st c) sid"
  shows "accepted cfg c \<and> sessionId (body c) = sid \<and> resets st c"
proof -
  have "accepted cfg c"
  proof (rule ccontr)
    assume "\<not> accepted cfg c"
    then have "step_store cfg st c = st" by (rule step_store_rejected)
    with assms show False by simp
  qed
  moreover have "sessionId (body c) = sid"
  proof (rule ccontr)
    assume "sessionId (body c) \<noteq> sid"
    then have "step_store cfg st c sid = st sid" by (rule step_other)
    then have "detected (step_store cfg st c) sid = detected st sid"
      by (simp add: detected_def)
    with assms show False by simp
  qed
  moreover have "resets st c"
    using assms step_in_session(3) [of c sid st cfg] \<open>sessionId (body c) = sid\<close> by blast
  ultimately show ?thesis by simp
qed

lemma resolved_absent:
  "st (sessionId (body c)) = None \<Longrightarrow> resolved st c = init_new_session_state (now c)"
  by (simp add: resolved_def session_management_absent)

lemma chat_handler_forgets_expired:
  assumes "st (sessionId (body c)) = Some old" "timed_out (now c) (last_active old)"
  shows "chat_handler cfg st c = chat_handler cfg (st(sessionId (body c) := None)) c"
proof -
  have "session_management st (sessionId (body c)) (now c) =
        session_management (st(sessionId (body c) := None)) (sessionId (body c)) (now c)"
    using assms by (simp add: session_management_def)
  then show ?thesis
    by (simp add: chat_handler_def Let_def)
qed

lemma last_active_resolved: "last_active (resolved st c) = now c"
  by (simp add: resolved_def session_management_def)

lemma flagged_then_detected:
  assumes c1: "flagged cfg c1" and sid: "sessionId (body c2) = sessionId (body c1)"
    and live: "\<not> timed_out (now c2) (now c1)"
  shows "scam_detected (resolved (step_store cfg st c1) c2)"
proof -
  from c1 have a: "accepted cfg c1" and d: "detect_scam (m_text (message (body c1)))"
    by (auto simp: flagged_def)
  from accepted_call [OF a, of st]
  obtain out s' where "chat_handler cfg st c1 = Inr out"
    "store out = st(sessionId (body c1) \<mapsto> s')"
    "scam_detected s' = (scam_detected (resolved st c1) \<or> detect_scam (m_text (message (body c1))))"
    "last_active s' = last_active (resolved st c1)"
    by blast
  then have "step_store cfg st c1 (sessionId (body c2)) = Some s'"
    "scam_detected s'" "last_active s' = now c1"
    using d sid by (simp_all add: step_store_def last_active_resolved)
  then show ?thesis using live
    by (simp add: resolved_def session_management_def)
qed

section \<open>Example runs: auxiliary facts\<close>

lemma detect_pay: "detect_scam ''pay'' = True"
  by code_simp

lemma detect_hello: "detect_scam ''hello'' = False"
  by code_simp

lemmas handler_eval =
  example_cfg_def example_call_def step_store_def chat_handler_def Let_def
  resets_def timed_out_def SESSION_TIMEOUT_SECONDS_def session_management_def
  init_new_session_state_def detect_pay detect_hello generate_agent_reply_def new_turns_def
  CALLBACK_MESSAGE_THRESHOLD_def fires_def qualifies_def detected_def hist_def
  report_sent_def accepted_def

lemma example_calls_within:
  "within_session example_cfg ''s1'' Map.empty example_calls"
  by (simp add: example_calls_def handler_eval)

lemma example_calls_qualify:
  "qualifies (run example_cfg Map.empty example_calls) ''s1''"
  by (simp add: example_calls_def handler_eval)

lemma example_five_within:
  "within_session example_cfg ''s1'' Map.empty (butlast example_calls)"
  by (simp add: example_calls_def handler_eval)

lemma example_five_flagged: "list_all (flagged example_cfg) (butlast example_calls)"
  by (simp add: example_calls_def flagged_def handler_eval)

lemma example_hello_accepted: "accepted example_cfg (example_call ''hello'' 1)"
  by (simp add: handler_eval)

lemma example_run_session:
  "\<exists>s. run example_cfg Map.empty example_calls ''s1'' = Some s \<and> length (history s) = 12"
  by (simp add: example_calls_def handler_eval)

lemma kyc_extraction:
  "extract_and_update_intelligence empty_intel
     ''Your KYC is blocked, pay to upi id john@upi or verify at http://bit.ly/x'' =
     \<lparr>bankAccounts = [], upiIds = [''john@upi''], phishingLinks = [''http://bit.ly/x''],
      phoneNumbers = [],
      suspiciousKeywords = [''blocked'', ''verify'', ''kyc'', ''upi'', ''pay'']\<rparr>"
  by code_simp

lemma kyc_detected:
  "detect_scam ''Your KYC is blocked, pay to upi id john@upi or verify at http://bit.ly/x''"
  by code_simp

lemma kyc_order:
  "subseq [''blocked'', ''verify'', ''kyc'', ''upi'', ''pay''] KEYWORDS_SCAM"
  by code_simp

lemma fresh_intelligence: "intelligence (init_new_session_state t) = empty_intel"
  by (simp add: init_new_session_state_def empty_intel_def)

lemma digits_extraction:
  "extract_and_update_intelligence empty_intel ''9876543210'' =
     \<lparr>bankAccounts = [''9876543210''], upiIds = [], phishingLinks = [],
      phoneNumbers = [''9876543210''], suspiciousKeywords = []\<rparr>"
  by code_simp

lemma prefixed_extraction:
  "extract_and_update_intelligence empty_intel ''call +91 9876543210'' =
     \<lparr>bankAccounts = [''9876543210''], upiIds = [], phishingLinks = [],
      phoneNumbers = [''+91 9876543210''], suspiciousKeywords = []\<rparr>"
  by code_simp

lemma example_calls_split:
  "example_calls = butlast (butlast example_calls) @ example_call ''pay'' 4 # [example_call ''pay'' 5]"
  by (simp add: example_calls_def)

lemma example_fifth_fires:
  "fires example_cfg (run example_cfg Map.empty (butlast (butlast example_calls)))
     (example_call ''pay'' 4)"
  by (simp add: example_calls_def handler_eval)

lemma example_sent_after_five:
  "report_sent (run example_cfg Map.empty (butlast example_calls)) ''s1''"
  by (simp add: example_calls_def handler_eval)

lemma example_sixth_within:
  "within_session example_cfg ''s1'' (run example_cfg Map.empty (butlast example_calls))
     [example_call ''pay'' 5]"
  by (simp add: example_calls_def handler_eval)

lemma example_late_resets: "resets example_store (example_call ''hello'' 1800000001)"
  by (simp add: example_store_def example_session_def handler_eval)

lemma example_late_clears:
  "\<not> detected (step_store example_cfg example_store (example_call ''hello'' 1800000001)) ''s1''"
  by (simp add: example_store_def example_session_def handler_eval)

section \<open>The claims\<close>

text \<open>
  Claim C1 (at-most-once report). For any sequence of calls to one session in which no call
  resets the session, the report trigger fires on at most one turn. Once the session's
  \<open>callback_sent\<close> flag is set it stays set and no later turn fires; the turn that fires
  sets it. A sequence that starts without a session and ends with the session flagged as a
  scam and its history at the threshold has fired on exactly one turn.
\<close>

theorem at_most_once_report:
  assumes "within_session cfg sid st cs"
  shows "count_list (triggers cfg st cs) True \<le> 1 \<and>
    (report_sent st sid \<longrightarrow>
       report_sent (run cfg st cs) sid \<and> count_list (triggers cfg st cs) True = 0) \<and>
    (st sid = None \<and> qualifies (run cfg st cs) sid \<longrightarrow>
       count_list (triggers cfg st cs) True = 1) \<and>
    (\<forall>before c after. cs = before @ c # after \<and> fires cfg (run cfg st before) c \<longrightarrow>
       report_sent (run cfg st (before @ [c])) sid \<and>
       report_sent (run cfg st cs) sid \<and>
       True \<notin> set (triggers cfg (run cfg st (before @ [c])) after))"
proof (intro conjI allI impI)
  show "count_list (triggers cfg st cs) True \<le> 1"
    using sent_blocks [OF assms] sent_counts [OF assms]
    by (cases "report_sent st sid") (auto simp: count_list_0_iff)
next
  assume "report_sent st sid"
  then show "report_sent (run cfg st cs) sid" "count_list (triggers cfg st cs) True = 0"
    using sent_blocks [OF assms] by (auto simp: count_list_0_iff)
next
  assume a: "st sid = None \<and> qualifies (run cfg st cs) sid"
  then have n: "\<not> report_sent st sid" "\<not> qualifies st sid"
    by (auto simp: report_sent_def qualifies_def detected_def)
  then have "report_sent (run cfg st cs) sid"
    using qualified_is_sent [OF assms] a by simp
  then show "count_list (triggers cfg st cs) True = 1"
    using sent_counts [OF assms n(1)] by simp
next
  fix before c after
  assume a: "cs = before @ c # after \<and> fires cfg (run cfg st before) c"
  then have cs: "cs = (before @ [c]) @ after" by simp
  from assms have w2: "within_session cfg sid (run cfg st before) [c]"
    and w3: "within_session cfg sid (run cfg st (before @ [c])) after"
    unfolding cs within_session_append by (simp_all add: within_session_append run_append)
  from w2 have c: "sessionId (body c) = sid" "\<not> resets (run cfg st before) c" by auto
  show s: "report_sent (run cfg st (before @ [c])) sid"
    using step_in_session(2) [OF c, of cfg] a by (simp add: run_append)
  from sent_blocks [OF w3 s]
  show "report_sent (run cfg st cs) sid"
    "True \<notin> set (triggers cfg (run cfg st (before @ [c])) after)"
    unfolding cs run_append [of cfg st "before @ [c]" after] by auto
qed

theorem at_most_once_report_witness:
  "within_session example_cfg ''s1'' Map.empty example_calls \<and>
   qualifies (run example_cfg Map.empty example_calls) ''s1'' \<and>
   count_list (triggers example_cfg Map.empty example_calls) True = 1 \<and>
   fires example_cfg (run example_cfg Map.empty (butlast (butlast example_calls)))
     (example_call ''pay'' 4) \<and>
   report_sent (run example_cfg Map.empty example_calls) ''s1'' \<and>
   report_sent (run example_cfg Map.empty (butlast example_calls)) ''s1'' \<and>
   count_list (triggers example_cfg (run example_cfg Map.empty (butlast example_calls))
     [example_call ''pay'' 5]) True = 0"
proof -
  from at_most_once_report [OF example_calls_within]
  have a: "count_list (triggers example_cfg Map.empty example_calls) True = 1"
    and b: "\<And>before c after. example_calls = before @ c # after \<Longrightarrow>
       fires example_cfg (run example_cfg Map.empty before) c \<Longrightarrow>
       report_sent (run example_cfg Map.empty example_calls) ''s1''"
    using example_calls_qualify by auto
  from at_most_once_report [OF example_sixth_within] example_sent_after_five
  have c: "count_list (triggers example_cfg (run example_cfg Map.empty (butlast example_calls))
     [example_call ''pay'' 5]) True = 0"
    by blast
  from a b [OF example_calls_split example_fifth_fires] c
  show ?thesis
    using example_calls_within example_calls_qualify example_fifth_fires example_sent_after_five
    by simp
qed

text \<open>
  Claim C2 (report trigger condition). On every accepted call the condition is evaluated on
  the session after the two turns of this call have been appended: a callback task is
  scheduled exactly when the session is flagged as a scam, its history has at least
  \<open>CALLBACK_MESSAGE_THRESHOLD\<close> (10) entries, and \<open>callback_sent\<close> was not yet set; the
  task is for this session, and the flag is set with it. Five flagged calls in a row on a
  new session fire exactly once, on the fifth, where the history reaches length 10.
\<close>

theorem report_trigger_condition:
  "(accepted cfg c \<longrightarrow>
      (\<exists>out s'. chat_handler cfg st c = Inr out \<and>
         store out (sessionId (body c)) = Some s' \<and>
         length (history s') = length (history (resolved st c)) + 2 \<and>
         (callback_tasks out \<noteq> []) =
           (scam_detected s' \<and> CALLBACK_MESSAGE_THRESHOLD \<le> length (history s') \<and>
            \<not> callback_sent (resolved st c)) \<and>
         callback_tasks out = (if callback_tasks out \<noteq> [] then [sessionId (body c)] else []) \<and>
         callback_sent s' = (callback_sent (resolved st c) \<or> callback_tasks out \<noteq> []))) \<and>
   CALLBACK_MESSAGE_THRESHOLD = 10 \<and>
   (st sid = None \<and> length cs = 5 \<and> within_session cfg sid st cs \<and>
    list_all (flagged cfg) cs \<longrightarrow>
      triggers cfg st cs = [False, False, False, False, True])"
proof (intro conjI impI)
  assume "accepted cfg c"
  from accepted_call [OF this, of st]
  obtain out s' where "chat_handler cfg st c = Inr out"
    "store out = st(sessionId (body c) \<mapsto> s')"
    "history s' = history (resolved st c) @ new_turns c (r_reply (response out))"
    "callback_sent s' = (callback_sent (resolved st c) \<or> callback_tasks out \<noteq> [])"
    "callback_tasks out =
       (if scam_detected s' \<and> CALLBACK_MESSAGE_THRESHOLD \<le> length (history s') \<and>
           \<not> callback_sent (resolved st c)
        then [sessionId (body c)] else [])"
    by blast
  then show "\<exists>out s'. chat_handler cfg st c = Inr out \<and>
         store out (sessionId (body c)) = Some s' \<and>
         length (history s') = length (history (resolved st c)) + 2 \<and>
         (callback_tasks out \<noteq> []) =
           (scam_detected s' \<and> CALLBACK_MESSAGE_THRESHOLD \<le> length (history s') \<and>
            \<not> callback_sent (resolved st c)) \<and>
         callback_tasks out = (if callback_tasks out \<noteq> [] then [sessionId (body c)] else []) \<and>
         callback_sent s' = (callback_sent (resolved st c) \<or> callback_tasks out \<noteq> [])"
    by (intro exI [of _ out] exI [of _ s']) auto
next
  show "CALLBACK_MESSAGE_THRESHOLD = 10" by (simp add: CALLBACK_MESSAGE_THRESHOLD_def)
next
  assume "st sid = None \<and> length cs = 5 \<and> within_session cfg sid st cs \<and>
    list_all (flagged cfg) cs"
  then show "triggers cfg st cs = [False, False, False, False, True]"
    using five_flagged [of st sid cs cfg] by blast
qed

theorem report_trigger_condition_witness:
  "accepted example_cfg (example_call ''pay'' 0) \<and>
   (\<exists>out s'. chat_handler example_cfg Map.empty (example_call ''pay'' 0) = Inr out \<and>
      store out ''s1'' = Some s' \<and> length (history s') = 2 \<and> callback_tasks out = []) \<and>
   length (butlast example_calls) = 5 \<and>
   within_session example_cfg ''s1'' Map.empty (butlast example_calls) \<and>
   list_all (flagged example_cfg) (butlast example_calls) \<and>
   triggers example_cfg Map.empty (butlast example_calls) = [False, False, False, False, True]"
proof -
  have a: "accepted example_cfg (example_call ''pay'' 0)"
    by (simp add: handler_eval)
  have s: "sessionId (body (example_call ''pay'' 0)) = ''s1''"
    by (simp add: example_call_def)
  have h: "history (resolved Map.empty (example_call ''pay'' 0)) = []"
    by (simp add: resolved_def handler_eval)
  have l: "length (butlast example_calls) = 5" by (simp add: example_calls_def)
  from report_trigger_condition
    [where cfg = example_cfg and c = "example_call ''pay'' 0" and st = Map.empty
       and sid = "''s1''" and cs = "butlast example_calls"]
  show ?thesis
    using a l example_five_within example_five_flagged
    unfolding s h by (auto simp: CALLBACK_MESSAGE_THRESHOLD_def)
qed

text \<open>
  Claim C3 (pair invariant). Every accepted call appends exactly two entries to the history
  of the session it works on, the scammer's turn and then the agent's turn, whether or not
  the reply generator ran: the length grows by two (over the stored session when the call
  does not reset it). In every store reachable from the empty one, every session's history
  has even length.
\<close>

theorem pair_invariant:
  "(accepted cfg c \<longrightarrow>
     (\<exists>out s'. chat_handler cfg st c = Inr out \<and>
        store out (sessionId (body c)) = Some s' \<and>
        history s' = history (resolved st c) @
          [\<lparr>t_sender = ''scammer'', t_text = m_text (message (body c)),
            t_timestamp = m_timestamp (message (body c))\<rparr>,
           \<lparr>t_sender = ''agent'', t_text = r_reply (response out),
            t_timestamp = isoformat (now c) @ ''Z''\<rparr>] \<and>
        length (history s') = length (history (resolved st c)) + 2 \<and>
        (\<not> resets st c \<longrightarrow>
           length (history s') = length (hist st (sessionId (body c))) + 2))) \<and>
   (\<forall>sid s. run cfg Map.empty cs sid = Some s \<longrightarrow> even (length (history s)))"
proof (intro conjI impI allI)
  assume "accepted cfg c"
  from accepted_call [OF this, of st]
  obtain out s' where "chat_handler cfg st c = Inr out"
    "store out = st(sessionId (body c) \<mapsto> s')"
    "history s' = history (resolved st c) @ new_turns c (r_reply (response out))"
    by blast
  then show "\<exists>out s'. chat_handler cfg st c = Inr out \<and>
        store out (sessionId (body c)) = Some s' \<and>
        history s' = history (resolved st c) @
          [\<lparr>t_sender = ''scammer'', t_text = m_text (message (body c)),
            t_timestamp = m_timestamp (message (body c))\<rparr>,
           \<lparr>t_sender = ''agent'', t_text = r_reply (response out),
            t_timestamp = isoformat (now c) @ ''Z''\<rparr>] \<and>
        length (history s') = length (history (resolved st c)) + 2 \<and>
        (\<not> resets st c \<longrightarrow>
           length (history s') = length (hist st (sessionId (body c))) + 2)"
    by (intro exI [of _ out] exI [of _ s']) (auto simp: new_turns_def resolved_live)
next
  fix sid s assume "run cfg Map.empty cs sid = Some s"
  then show "even (length (history s))"
    by (rule run_even [rotated]) simp
qed

theorem pair_invariant_witness:
  "accepted example_cfg (example_call ''hello'' 1) \<and>
   \<not> resets example_store (example_call ''hello'' 1) \<and>
   (\<exists>out s'. chat_handler example_cfg example_store (example_call ''hello'' 1) = Inr out \<and>
      store out ''s1'' = Some s' \<and> length (history s') = 4) \<and>
   (\<exists>s. run example_cfg Map.empty example_calls ''s1'' = Some s \<and> even (length (history s)))"
proof -
  have r: "\<not> resets example_store (example_call ''hello'' 1)"
    by (simp add: example_store_def example_session_def handler_eval)
  have s: "sessionId (body (example_call ''hello'' 1)) = ''s1''"
    by (simp add: example_call_def)
  have h: "length (hist example_store ''s1'') = 2"
    by (simp add: example_store_def example_session_def hist_def)
  from pair_invariant
    [where cfg = example_cfg and c = "example_call ''hello'' 1" and st = example_store
       and cs = example_calls]
  show ?thesis
    using example_hello_accepted r example_run_session unfolding s
    by (auto simp: h)
qed

text \<open>
  Claim C4 (sticky detection). A call that does not reset its session ORs the classifier's
  verdict into \<open>scam_detected\<close>. Once the flag is set for a session, every call to
  that session that does not reset it leaves the flag set, whatever the classifier says of
  the text, and so does any sequence of such calls; the flag is lost only by an accepted
  call that finds the session timed out and resets it.
\<close>

theorem sticky_detection:
  "(accepted cfg c \<and> \<not> resets st c \<longrightarrow>
      detected (step_store cfg st c) (sessionId (body c)) =
        (detected st (sessionId (body c)) \<or> detect_scam (m_text (message (body c))))) \<and>
   (detected st sid \<longrightarrow>
      (sessionId (body c) = sid \<and> \<not> resets st c \<longrightarrow> detected (step_store cfg st c) sid) \<and>
      (\<not> detected (step_store cfg st c) sid \<longrightarrow>
         accepted cfg c \<and> sessionId (body c) = sid \<and> resets st c) \<and>
      (within_session cfg sid st cs \<longrightarrow> detected (run cfg st cs) sid))"
proof (intro conjI impI)
  assume "accepted cfg c \<and> \<not> resets st c"
  then show "detected (step_store cfg st c) (sessionId (body c)) =
        (detected st (sessionId (body c)) \<or> detect_scam (m_text (message (body c))))"
    using step_live(2) [of cfg c st] by simp
next
  assume "detected st sid" "sessionId (body c) = sid \<and> \<not> resets st c"
  then show "detected (step_store cfg st c) sid"
    using step_in_session(3) [of c sid st cfg] by simp
next
  assume "detected st sid" "\<not> detected (step_store cfg st c) sid"
  then have *: "accepted cfg c \<and> sessionId (body c) = sid \<and> resets st c"
    by (rule detected_lost)
  from * show "accepted cfg c" by simp
  from * show "sessionId (body c) = sid" by simp
  from * show "resets st c" by simp
next
  assume "detected st sid" "within_session cfg sid st cs"
  then show "detected (run cfg st cs) sid" by (simp add: detected_run)
qed

theorem sticky_detection_witness:
  "detected example_store ''s1'' \<and> \<not> detect_scam ''hello'' \<and>
   \<not> resets example_store (example_call ''hello'' 1) \<and>
   within_session example_cfg ''s1'' example_store [example_call ''hello'' 1, example_call ''hello'' 2] \<and>
   detected (step_store example_cfg example_store (example_call ''hello'' 1)) ''s1'' \<and>
   detected (run example_cfg example_store [example_call ''hello'' 1, example_call ''hello'' 2]) ''s1'' \<and>
   \<not> detected (step_store example_cfg example_store (example_call ''hello'' 1800000001)) ''s1'' \<and>
   resets example_store (example_call ''hello'' 1800000001)"
proof -
  have d: "detected example_store ''s1''"
    by (simp add: example_store_def example_session_def detected_def)
  have r: "\<not> resets example_store (example_call ''hello'' 1)"
    by (simp add: example_store_def example_session_def handler_eval)
  have s: "sessionId (body (example_call ''hello'' 1)) = ''s1''"
    by (simp add: example_call_def)
  have w: "within_session example_cfg ''s1'' example_store
             [example_call ''hello'' 1, example_call ''hello'' 2]"
    by (simp add: example_store_def example_session_def handler_eval)
  from sticky_detection
    [where cfg = example_cfg and c = "example_call ''hello'' 1" and st = example_store
       and sid = "''s1''" and cs = "[example_call ''hello'' 1, example_call ''hello'' 2]"]
    sticky_detection
    [where cfg = example_cfg and c = "example_call ''hello'' 1800000001" and st = example_store
       and sid = "''s1''"]
  show ?thesis
    using d r s w detect_hello example_late_clears by simp
qed

text \<open>
  Claim C5 (idempotent extraction, order preserved). Running the extraction update a second
  time with the same text changes nothing. An update keeps category lists free of
  duplicates and only appends: each list before the update is a prefix of the list after
  it. In every store reachable from the empty one, no category list of any session holds a
  value twice.
\<close>

theorem idempotent_extraction:
  "extract_and_update_intelligence (extract_and_update_intelligence i t) t =
     extract_and_update_intelligence i t \<and>
   (list_all distinct (categories i) \<longrightarrow>
      list_all distinct (categories (extract_and_update_intelligence i t))) \<and>
   list_all2 prefix (categories i) (categories (extract_and_update_intelligence i t)) \<and>
   (\<forall>sid s. run cfg Map.empty cs sid = Some s \<longrightarrow>
      list_all distinct (categories (intelligence s)))"
proof (intro conjI impI allI)
  show "extract_and_update_intelligence (extract_and_update_intelligence i t) t =
     extract_and_update_intelligence i t"
    by (rule extract_twice)
next
  assume "list_all distinct (categories i)"
  then show "list_all distinct (categories (extract_and_update_intelligence i t))"
    by (rule extract_distinct)
next
  show "list_all2 prefix (categories i) (categories (extract_and_update_intelligence i t))"
    by (rule extract_prefix)
next
  fix sid s assume "run cfg Map.empty cs sid = Some s"
  then show "list_all distinct (categories (intelligence s))"
    by (rule run_distinct [rotated]) simp
qed

theorem idempotent_extraction_witness:
  "list_all distinct (categories empty_intel) \<and>
   list_all distinct (categories (extract_and_update_intelligence empty_intel ''pay'')) \<and>
   (\<exists>s. run example_cfg Map.empty example_calls ''s1'' = Some s \<and>
        list_all distinct (categories (intelligence s)))"
proof -
  have d: "list_all distinct (categories empty_intel)"
    by (simp add: categories_def empty_intel_def)
  from example_run_session obtain s
    where s: "run example_cfg Map.empty example_calls ''s1'' = Some s" by blast
  from idempotent_extraction
    [where i = empty_intel and t = "''pay''" and cfg = example_cfg and cs = example_calls]
  show ?thesis using d s by blast
qed

text \<open>
  Claim C6 (timeout reset). For a stored session last active at \<open>T\<close>, a call at time
  \<open>t\<close> with \<open>t - T\<close> above 1800 seconds works on a session with empty history, five empty
  intelligence lists, both flags false and \<open>last_active = t\<close>, and the handler
  behaves as if the session had never been stored; otherwise it works on the stored
  session, changed only in \<open>last_active := t\<close>.
\<close>

theorem timeout_reset:
  assumes "st sid = Some old"
  shows
   "timed_out t (last_active old) = (micros t - micros (last_active old) > 1800 * 1000000) \<and>
    (timed_out t (last_active old) \<longrightarrow>
       session_management st sid t =
         \<lparr>history = [], intelligence = empty_intel, last_active = t,
          callback_sent = False, scam_detected = False\<rparr> \<and>
       (sessionId (body c) = sid \<and> now c = t \<longrightarrow>
          chat_handler cfg st c = chat_handler cfg (st(sid := None)) c)) \<and>
    (\<not> timed_out t (last_active old) \<longrightarrow>
       session_management st sid t = old\<lparr>last_active := t\<rparr>)"
proof (intro conjI impI)
  show "timed_out t (last_active old) = (micros t - micros (last_active old) > 1800 * 1000000)"
    by (simp add: timed_out_def SESSION_TIMEOUT_SECONDS_def)
next
  assume "timed_out t (last_active old)"
  then show "session_management st sid t =
         \<lparr>history = [], intelligence = empty_intel, last_active = t,
          callback_sent = False, scam_detected = False\<rparr>"
    using assms
    by (simp add: session_management_expired init_new_session_state_def empty_intel_def)
next
  assume "timed_out t (last_active old)" "sessionId (body c) = sid \<and> now c = t"
  then show "chat_handler cfg st c = chat_handler cfg (st(sid := None)) c"
    using assms chat_handler_forgets_expired [of st c old cfg] by auto
next
  assume "\<not> timed_out t (last_active old)"
  then show "session_management st sid t = old\<lparr>last_active := t\<rparr>"
    using assms by (simp add: session_management_live)
qed

theorem timeout_reset_witness:
  "example_store ''s1'' = Some example_session \<and>
   timed_out (now (example_call ''hello'' 1800000001)) (last_active example_session) \<and>
   session_management example_store ''s1'' (now (example_call ''hello'' 1800000001)) =
     \<lparr>history = [], intelligence = empty_intel,
      last_active = now (example_call ''hello'' 1800000001),
      callback_sent = False, scam_detected = False\<rparr> \<and>
   chat_handler example_cfg example_store (example_call ''hello'' 1800000001) =
     chat_handler example_cfg (example_store(''s1'' := None)) (example_call ''hello'' 1800000001) \<and>
   \<not> timed_out (now (example_call ''hello'' 1800000000)) (last_active example_session) \<and>
   session_management example_store ''s1'' (now (example_call ''hello'' 1800000000)) =
     example_session\<lparr>last_active := now (example_call ''hello'' 1800000000)\<rparr>"
proof -
  have s: "example_store ''s1'' = Some example_session"
    by (simp add: example_store_def)
  have l: "micros (last_active example_session) = 0"
    by (simp add: example_session_def)
  have n: "micros (now (example_call ''hello'' 1800000001)) = 1800000001"
    "micros (now (example_call ''hello'' 1800000000)) = 1800000000"
    "sessionId (body (example_call ''hello'' 1800000001)) = ''s1''"
    by (simp_all add: example_call_def)
  from timeout_reset
         [where st = example_store and sid = "''s1''" and old = example_session
            and t = "now (example_call ''hello'' 1800000001)"
            and c = "example_call ''hello'' 1800000001" and cfg = example_cfg]
       timeout_reset
         [where st = example_store and sid = "''s1''" and old = example_session
            and t = "now (example_call ''hello'' 1800000000)"]
  show ?thesis using s by (simp add: l n)
qed

text \<open>
  Claim C7 (engagement activation). On every accepted call the reply generator is invoked
  exactly when the session is flagged after classifying this text or its history is not
  empty; when it is not invoked the reply is the fixed string \<open>Who is this?\<close>. A first
  call with the text \<open>hello\<close> on a new session leaves \<open>scam_detected\<close> false, gets the
  fixed reply, leaves a history of length 2 and schedules no report.
\<close>

theorem engagement_activation:
  "(accepted cfg c \<longrightarrow>
     (\<exists>out s'. chat_handler cfg st c = Inr out \<and>
        store out (sessionId (body c)) = Some s' \<and>
        scam_detected s' =
          (scam_detected (resolved st c) \<or> detect_scam (m_text (message (body c)))) \<and>
        agent_invoked out = (scam_detected s' \<or> length (history (resolved st c)) > 0) \<and>
        (agent_invoked out \<longrightarrow>
           r_reply (response out) =
             generate_agent_reply cfg (llm c) (history (resolved st c))
               (m_text (message (body c)))) \<and>
        (\<not> agent_invoked out \<longrightarrow> r_reply (response out) = ''Who is this?''))) \<and>
   (accepted cfg c \<and> st (sessionId (body c)) = None \<and>
    m_text (message (body c)) = ''hello'' \<longrightarrow>
     (\<exists>out s'. chat_handler cfg st c = Inr out \<and>
        store out (sessionId (body c)) = Some s' \<and>
        \<not> scam_detected s' \<and> \<not> r_scam_detected (response out) \<and>
        \<not> agent_invoked out \<and> r_reply (response out) = ''Who is this?'' \<and>
        length (history s') = 2 \<and> callback_tasks out = [] \<and> \<not> callback_sent s'))"
proof (intro conjI impI)
  assume "accepted cfg c"
  from accepted_call [OF this, of st]
  obtain out s' where "chat_handler cfg st c = Inr out"
    "store out = st(sessionId (body c) \<mapsto> s')"
    "scam_detected s' = (scam_detected (resolved st c) \<or> detect_scam (m_text (message (body c))))"
    "agent_invoked out = (scam_detected s' \<or> history (resolved st c) \<noteq> [])"
    "r_reply (response out) =
       (if agent_invoked out
        then generate_agent_reply cfg (llm c) (history (resolved st c)) (m_text (message (body c)))
        else ''Who is this?'')"
    by blast
  then show "\<exists>out s'. chat_handler cfg st c = Inr out \<and>
        store out (sessionId (body c)) = Some s' \<and>
        scam_detected s' =
          (scam_detected (resolved st c) \<or> detect_scam (m_text (message (body c)))) \<and>
        agent_invoked out = (scam_detected s' \<or> length (history (resolved st c)) > 0) \<and>
        (agent_invoked out \<longrightarrow>
           r_reply (response out) =
             generate_agent_reply cfg (llm c) (history (resolved st c))
               (m_text (message (body c)))) \<and>
        (\<not> agent_invoked out \<longrightarrow> r_reply (response out) = ''Who is this?'')"
    by (intro exI [of _ out] exI [of _ s']) auto
next
  assume a: "accepted cfg c \<and> st (sessionId (body c)) = None \<and>
    m_text (message (body c)) = ''hello''"
  then have r: "resolved st c = init_new_session_state (now c)"
    by (simp add: resolved_absent)
  from a have "accepted cfg c" by simp
  from accepted_call [OF this, of st]
  obtain out s' where "chat_handler cfg st c = Inr out"
    "store out = st(sessionId (body c) \<mapsto> s')"
    "history s' = history (resolved st c) @ new_turns c (r_reply (response out))"
    "scam_detected s' = (scam_detected (resolved st c) \<or> detect_scam (m_text (message (body c))))"
    "callback_sent s' = (callback_sent (resolved st c) \<or> callback_tasks out \<noteq> [])"
    "callback_tasks out =
       (if scam_detected s' \<and> CALLBACK_MESSAGE_THRESHOLD \<le> length (history s') \<and>
           \<not> callback_sent (resolved st c)
        then [sessionId (body c)] else [])"
    "agent_invoked out = (scam_detected s' \<or> history (resolved st c) \<noteq> [])"
    "r_reply (response out) =
       (if agent_invoked out
        then generate_agent_reply cfg (llm c) (history (resolved st c)) (m_text (message (body c)))
        else ''Who is this?'')"
    "r_scam_detected (response out) = scam_detected s'"
    by blast
  then show "\<exists>out s'. chat_handler cfg st c = Inr out \<and>
        store out (sessionId (body c)) = Some s' \<and>
        \<not> scam_detected s' \<and> \<not> r_scam_detected (response out) \<and>
        \<not> agent_invoked out \<and> r_reply (response out) = ''Who is this?'' \<and>
        length (history s') = 2 \<and> callback_tasks out = [] \<and> \<not> callback_sent s'"
    using a unfolding r
    by (intro exI [of _ out] exI [of _ s'])
       (simp add: init_new_session_state_def detect_hello)
qed

theorem engagement_activation_witness:
  "accepted example_cfg (example_call ''hello'' 1) \<and>
   (\<exists>out s'. chat_handler example_cfg Map.empty (example_call ''hello'' 1) = Inr out \<and>
        store out ''s1'' = Some s' \<and>
        \<not> scam_detected s' \<and> \<not> r_scam_detected (response out) \<and>
        \<not> agent_invoked out \<and> r_reply (response out) = ''Who is this?'' \<and>
        length (history s') = 2 \<and> callback_tasks out = [] \<and> \<not> callback_sent s')"
proof -
  have s: "sessionId (body (example_call ''hello'' 1)) = ''s1''"
    and m: "m_text (message (body (example_call ''hello'' 1))) = ''hello''"
    by (simp_all add: example_call_def)
  from engagement_activation
    [where cfg = example_cfg and c = "example_call ''hello'' 1" and st = Map.empty]
  show ?thesis using example_hello_accepted unfolding s m by simp
qed

text \<open>
  Claim C8 (worked example). For the text
  \<open>Your KYC is blocked, pay to upi id john@upi or verify at http://bit.ly/x\<close> the
  classifier returns true, and extraction into the intelligence of a new session gives
  \<open>upiIds = [john@upi]\<close>, \<open>phishingLinks = [http://bit.ly/x]\<close>, no phone or account
  numbers, and the suspicious keywords \<open>blocked, verify, kyc, upi, pay\<close>: they include
  kyc, blocked, pay and verify and stand in the order of \<open>KEYWORDS_SCAM\<close>.
\<close>

theorem worked_example:
  "detect_scam ''Your KYC is blocked, pay to upi id john@upi or verify at http://bit.ly/x'' \<and>
   extract_and_update_intelligence (intelligence (init_new_session_state t))
     ''Your KYC is blocked, pay to upi id john@upi or verify at http://bit.ly/x'' =
     \<lparr>bankAccounts = [], upiIds = [''john@upi''], phishingLinks = [''http://bit.ly/x''],
      phoneNumbers = [],
      suspiciousKeywords = [''blocked'', ''verify'', ''kyc'', ''upi'', ''pay'']\<rparr> \<and>
   subseq [''blocked'', ''verify'', ''kyc'', ''upi'', ''pay''] KEYWORDS_SCAM"
  using kyc_detected kyc_extraction kyc_order by (simp add: fresh_intelligence)

text \<open>
  Claim C9 (overlapping digit capture). Nothing keeps the phone-number and the
  account-number patterns apart: the text \<open>9876543210\<close> puts the same ten digits into
  both lists, and \<open>call +91 9876543210\<close> puts overlapping substrings into them.
\<close>

theorem overlapping_digit_capture:
  "phoneNumbers (extract_and_update_intelligence (intelligence (init_new_session_state t))
     ''9876543210'') = [''9876543210''] \<and>
   bankAccounts (extract_and_update_intelligence (intelligence (init_new_session_state t))
     ''9876543210'') = [''9876543210''] \<and>
   phoneNumbers (extract_and_update_intelligence (intelligence (init_new_session_state t))
     ''call +91 9876543210'') = [''+91 9876543210''] \<and>
   bankAccounts (extract_and_update_intelligence (intelligence (init_new_session_state t))
     ''call +91 9876543210'') = [''9876543210''] \<and>
   (\<exists>txt v. v \<in> set (phoneNumbers (extract_and_update_intelligence empty_intel txt)) \<and>
            v \<in> set (bankAccounts (extract_and_update_intelligence empty_intel txt)))"
proof -
  have "''9876543210'' \<in> set (phoneNumbers (extract_and_update_intelligence empty_intel ''9876543210'')) \<and>
        ''9876543210'' \<in> set (bankAccounts (extract_and_update_intelligence empty_intel ''9876543210''))"
    by (simp add: digits_extraction)
  then have "\<exists>txt v. v \<in> set (phoneNumbers (extract_and_update_intelligence empty_intel txt)) \<and>
            v \<in> set (bankAccounts (extract_and_update_intelligence empty_intel txt))"
    by blast
  then show ?thesis
    by (simp add: fresh_intelligence digits_extraction prefixed_extraction)
qed

text \<open>
  Claim C10 (the response reports the sticky flag). On every accepted call the
  \<open>scam_detected\<close> field of the response is the session's flag after the OR-update, not
  the classifier's verdict on this text. So when a flagged call is followed, within the
  timeout, by a call to the same session whose text the classifier does not flag, the
  second response still says \<open>scam_detected = True\<close>.
\<close>

theorem response_reports_sticky_flag:
  "(accepted cfg c \<longrightarrow>
     (\<exists>out s'. chat_handler cfg st c = Inr out \<and>
        store out (sessionId (body c)) = Some s' \<and>
        r_scam_detected (response out) = scam_detected s' \<and>
        r_scam_detected (response out) =
          (scam_detected (resolved st c) \<or> detect_scam (m_text (message (body c)))))) \<and>
   (flagged cfg ca \<and> accepted cfg cb \<and> sessionId (body cb) = sessionId (body ca) \<and>
    \<not> detect_scam (m_text (message (body cb))) \<and> \<not> timed_out (now cb) (now ca) \<longrightarrow>
     (\<exists>out. chat_handler cfg (step_store cfg st ca) cb = Inr out \<and>
        r_scam_detected (response out)))"
proof (intro conjI impI)
  assume "accepted cfg c"
  from accepted_call [OF this, of st]
  obtain out s' where "chat_handler cfg st c = Inr out"
    "store out = st(sessionId (body c) \<mapsto> s')"
    "scam_detected s' = (scam_detected (resolved st c) \<or> detect_scam (m_text (message (body c))))"
    "r_scam_detected (response out) = scam_detected s'"
    by blast
  then show "\<exists>out s'. chat_handler cfg st c = Inr out \<and>
        store out (sessionId (body c)) = Some s' \<and>
        r_scam_detected (response out) = scam_detected s' \<and>
        r_scam_detected (response out) =
          (scam_detected (resolved st c) \<or> detect_scam (m_text (message (body c))))"
    by (intro exI [of _ out] exI [of _ s']) auto
next
  assume a: "flagged cfg ca \<and> accepted cfg cb \<and> sessionId (body cb) = sessionId (body ca) \<and>
    \<not> detect_scam (m_text (message (body cb))) \<and> \<not> timed_out (now cb) (now ca)"
  then have d: "scam_detected (resolved (step_store cfg st ca) cb)"
    using flagged_then_detected [of cfg ca cb st] by blast
  from a have "accepted cfg cb" by simp
  from accepted_call [OF this, of "step_store cfg st ca"]
  obtain out s' where "chat_handler cfg (step_store cfg st ca) cb = Inr out"
    "store out = (step_store cfg st ca)(sessionId (body cb) \<mapsto> s')"
    "scam_detected s' = (scam_detected (resolved (step_store cfg st ca) cb) \<or>
                          detect_scam (m_text (message (body cb))))"
    "r_scam_detected (response out) = scam_detected s'"
    by blast
  with d show "\<exists>out. chat_handler cfg (step_store cfg st ca) cb = Inr out \<and>
        r_scam_detected (response out)"
    by auto
qed

theorem response_reports_sticky_flag_witness:
  "flagged example_cfg (example_call ''pay'' 0) \<and>
   accepted example_cfg (example_call ''hello'' 1) \<and>
   \<not> detect_scam ''hello'' \<and>
   (\<exists>out. chat_handler example_cfg (step_store example_cfg Map.empty (example_call ''pay'' 0))
            (example_call ''hello'' 1) = Inr out \<and>
      r_scam_detected (response out))"
proof -
  have f: "flagged example_cfg (example_call ''pay'' 0)"
    by (simp add: flagged_def handler_eval)
  have e: "sessionId (body (example_call ''hello'' 1)) = sessionId (body (example_call ''pay'' 0))"
    "m_text (message (body (example_call ''hello'' 1))) = ''hello''"
    "\<not> timed_out (now (example_call ''hello'' 1)) (now (example_call ''pay'' 0))"
    by (simp_all add: example_call_def timed_out_def SESSION_TIMEOUT_SECONDS_def)
  from response_reports_sticky_flag
    [where cfg = example_cfg and ca = "example_call ''pay'' 0"
       and cb = "example_call ''hello'' 1" and st = Map.empty]
  show ?thesis using f e example_hello_accepted detect_hello by simp
qed

end
